theory Spec2Isabelle
  imports Main "HOL-Library.Sublist"
begin

section \<open>String primitives of the host language\<close>

text \<open>
  The stylesheet loader \<^verbatim>\<open>src/vs/css.build.ts\<close> works on JavaScript strings.  A string is
  modelled as a \<open>char list\<close>; the primitives below are the ones the source calls, with the
  out-of-range behaviour of the language written out (\<open>indexOf\<close> and \<open>lastIndexOf\<close> answer
  \<open>-1\<close>, \<open>charAt\<close> answers the empty string, \<open>substr\<close> and \<open>substring\<close> clamp).
\<close>

fun first_index :: "char \<Rightarrow> string \<Rightarrow> nat option" where
  "first_index c [] = None"
| "first_index c (x # xs) = (if x = c then Some 0 else map_option Suc (first_index c xs))"

definition indexOf :: "string \<Rightarrow> char \<Rightarrow> nat \<Rightarrow> int" where
  "indexOf s c start =
     (case first_index c (drop start s) of None \<Rightarrow> - 1 | Some i \<Rightarrow> int (start + i))"

definition lastIndexOf :: "string \<Rightarrow> char \<Rightarrow> int" where
  "lastIndexOf s c =
     (case first_index c (rev s) of None \<Rightarrow> - 1 | Some i \<Rightarrow> int (length s) - 1 - int i)"

definition substr :: "string \<Rightarrow> nat \<Rightarrow> nat \<Rightarrow> string" where
  "substr s start len = take len (drop start s)"

definition substr_from :: "string \<Rightarrow> nat \<Rightarrow> string" where
  "substr_from s start = drop start s"

definition substring :: "string \<Rightarrow> nat \<Rightarrow> nat \<Rightarrow> string" where
  "substring s a b = take (max a b - min a b) (drop (min a b) s)"

definition charAt :: "string \<Rightarrow> int \<Rightarrow> string" where
  "charAt s i = (if 0 \<le> i \<and> i < int (length s) then [s ! nat i] else [])"

fun js_split :: "char \<Rightarrow> string \<Rightarrow> string list" where
  "js_split c [] = [[]]"
| "js_split c (x # xs) =
     (if x = c then [] # js_split c xs
      else (case js_split c xs of [] \<Rightarrow> [[x]] | p # ps \<Rightarrow> (x # p) # ps))"

section \<open>Path algebra (class \<open>Utilities\<close>)\<close>

definition startsWith :: "string \<Rightarrow> string \<Rightarrow> bool" where
  "startsWith haystack needle \<longleftrightarrow>
     length haystack \<ge> length needle \<and> substr haystack 0 (length needle) = needle"

definition pathOf :: "string \<Rightarrow> string" where
  "pathOf filename =
     (let lastSlash = lastIndexOf filename CHR ''/''
      in if lastSlash \<noteq> - 1 then substr filename 0 (nat (lastSlash + 1)) else [])"

subsection \<open>\<open>joinPaths\<close>\<close>

definition findSlashIndexAfterPrefix :: "string \<Rightarrow> string \<Rightarrow> nat" where
  "findSlashIndexAfterPrefix haystack pfx =
     (if startsWith haystack pfx
      then nat (max (int (length pfx)) (indexOf haystack CHR ''/'' (length pfx)))
      else 0)"

text \<open>\<open>x || y\<close> on numbers: \<open>x\<close> unless it is zero.\<close>

definition or_else :: "nat \<Rightarrow> nat \<Rightarrow> nat" where
  "or_else x y = (if x \<noteq> 0 then x else y)"

definition aPathStartIndex :: "string \<Rightarrow> nat" where
  "aPathStartIndex a =
     (let i = 0;
          i = or_else i (findSlashIndexAfterPrefix a ''//'');
          i = or_else i (findSlashIndexAfterPrefix a ''http://'');
          i = or_else i (findSlashIndexAfterPrefix a ''https://'')
      in i)"

text \<open>
  \<open>prevPiece\<close> is the last element of the array or \<open>null\<close>; the tests \<open>prevPiece && \<dots>\<close>
  need it to be neither \<open>null\<close> nor the empty string.
\<close>

definition truthy :: "string option \<Rightarrow> bool" where
  "truthy p = (case p of None \<Rightarrow> False | Some s \<Rightarrow> s \<noteq> [])"

definition pushPiece :: "string list \<Rightarrow> string \<Rightarrow> string list" where
  "pushPiece pieces piece =
     (if piece = ''./'' then pieces
      else if piece = ''../'' then
        (let prevPiece = (if length pieces > 0 then Some (last pieces) else None)
         in if truthy prevPiece \<and> prevPiece = Some ''/'' then pieces
            else if truthy prevPiece \<and> prevPiece \<noteq> Some ''../'' then butlast pieces
            else pieces @ [piece])
      else pieces @ [piece])"

definition next_piece :: "string \<Rightarrow> string \<times> string" where
  "next_piece path =
     (let slashIndex = indexOf path CHR ''/'' 0
      in (if slashIndex \<ge> 0 then substring path 0 (nat (slashIndex + 1)) else path,
          if slashIndex \<ge> 0 then substr_from path (nat (slashIndex + 1)) else []))"

lemma first_index_less: "first_index c s = Some i \<Longrightarrow> i < length s"
  by (induction s arbitrary: i) (auto split: if_splits)

lemma next_piece_shorter: "path \<noteq> [] \<Longrightarrow> length (snd (next_piece path)) < length path"
  by (auto simp: next_piece_def indexOf_def substr_from_def Let_def
           split: option.splits dest: first_index_less)

function push :: "string list \<Rightarrow> string \<Rightarrow> string list" where
  "push pieces path =
     (if length path > 0
      then (case next_piece path of (piece, path') \<Rightarrow> push (pushPiece pieces piece) path')
      else pieces)"
  by pat_completeness auto
termination
proof (relation "measure (\<lambda>(pieces, path). length path)")
  show "wf (measure (\<lambda>(pieces, path). length path))" by simp
next
  fix pieces :: "string list" and path x :: string and piece path' :: string
  assume "0 < length path" and "(piece, path') = next_piece path"
  then show "((pushPiece pieces piece, path'), (pieces, path))
             \<in> measure (\<lambda>(pieces, path). length path)"
    using next_piece_shorter [of path] by (cases "next_piece path") auto
qed

declare push.simps [simp del]

definition joinPaths :: "string \<Rightarrow> string \<Rightarrow> string" where
  "joinPaths a b =
     (let i = aPathStartIndex a;
          pieces = push [] (substr_from a i);
          pieces = (if length b > 0 \<and> charAt b 0 = ''/'' then [] else pieces);
          pieces = push pieces b
      in substring a 0 i @ concat pieces)"

subsection \<open>\<open>commonPrefix\<close>, \<open>commonFolderPrefix\<close>, \<open>relativePath\<close>\<close>

function commonPrefix_loop :: "string \<Rightarrow> string \<Rightarrow> nat \<Rightarrow> nat \<Rightarrow> string" where
  "commonPrefix_loop str1 str2 len i =
     (if i < len
      then (if str1 ! i \<noteq> str2 ! i then substring str1 0 i
            else commonPrefix_loop str1 str2 len (i + 1))
      else substring str1 0 len)"
  by pat_completeness auto
termination
  by (relation "measure (\<lambda>(str1, str2, len, i). len - i)") auto

declare commonPrefix_loop.simps [simp del]

definition commonPrefix :: "string \<Rightarrow> string \<Rightarrow> string" where
  "commonPrefix str1 str2 = commonPrefix_loop str1 str2 (min (length str1) (length str2)) 0"

definition commonFolderPrefix :: "string \<Rightarrow> string \<Rightarrow> string" where
  "commonFolderPrefix fromPath toPath =
     (let pfx = commonPrefix fromPath toPath;
          slashIndex = lastIndexOf pfx CHR ''/''
      in if slashIndex = - 1 then [] else substring pfx 0 (nat (slashIndex + 1)))"

function ascend :: "nat \<Rightarrow> nat \<Rightarrow> string \<Rightarrow> string" where
  "ascend i upCount result =
     (if i < upCount then ascend (i + 1) upCount (result @ ''../'') else result)"
  by pat_completeness auto
termination
  by (relation "measure (\<lambda>(i, upCount, result). upCount - i)") auto

declare ascend.simps [simp del]

definition relativePath :: "string \<Rightarrow> string \<Rightarrow> string" where
  "relativePath fromPath toPath =
     (if startsWith toPath ''/'' \<or> startsWith toPath ''http://'' \<or> startsWith toPath ''https://''
      then toPath
      else
        (let pfx = commonFolderPrefix fromPath toPath;
             fromPath = substr_from fromPath (length pfx);
             toPath = substr_from toPath (length pfx);
             upCount = length (js_split CHR ''/'' fromPath)
         in ascend 1 upCount [] @ toPath))"

section \<open>Regular expressions and global replacement\<close>

text \<open>
  The source rewrites text with \<open>String.prototype.replace\<close> and a global regular expression.
  Every expression it uses is a sequence of one-character items, each with a quantifier:
  a literal character, \<open>\s\<close> or \<open>[^\)]\<close>; taken once, \<open>*\<close>, \<open>+\<close> or \<open>?\<close>.  \<open>run\<close> is the
  backtracking matcher of such a sequence at the start of a string: a quantified item first
  takes as many characters as it can and gives them back one at a time while the rest of the
  expression fails.  It answers the text each item matched and the unread rest of the string.
  Within the 256 characters of the model, \<open>\s\<close> is tab, line feed, vertical tab, form feed,
  carriage return, space and no-break space.
\<close>

datatype cls = Lit char | Space | NotClose

datatype quant = Once | Many0 | Many1 | Opt

definition is_space :: "char \<Rightarrow> bool" where
  "is_space c \<longleftrightarrow>
     c \<in> set [CHR 0x09, CHR 0x0A, CHR 0x0B, CHR 0x0C, CHR 0x0D, CHR 0x20, CHR 0xA0]"

fun accepts :: "cls \<Rightarrow> char \<Rightarrow> bool" where
  "accepts (Lit a) c = (c = a)"
| "accepts Space c = is_space c"
| "accepts NotClose c = (c \<noteq> CHR '')'')"

definition took ::
  "string \<Rightarrow> (string list \<times> string) option \<Rightarrow> (string list \<times> string) option" where
  "took g r = map_option (\<lambda>(gs, rest). (g # gs, rest)) r"

definition took_more ::
  "char \<Rightarrow> (string list \<times> string) option \<Rightarrow> (string list \<times> string) option" where
  "took_more c r = (case r of Some (g # gs, rest) \<Rightarrow> Some ((c # g) # gs, rest) | _ \<Rightarrow> None)"

fun run :: "(cls \<times> quant) list \<Rightarrow> string \<Rightarrow> (string list \<times> string) option" where
  "run [] s = Some ([], s)"
| "run ((k, Once) # items) [] = None"
| "run ((k, Once) # items) (c # s) = (if accepts k c then took [c] (run items s) else None)"
| "run ((k, Opt) # items) [] = took [] (run items [])"
| "run ((k, Opt) # items) (c # s) =
     (if accepts k c
      then (case took [c] (run items s) of
              Some r \<Rightarrow> Some r
            | None \<Rightarrow> took [] (run items (c # s)))
      else took [] (run items (c # s)))"
| "run ((k, Many0) # items) [] = took [] (run items [])"
| "run ((k, Many0) # items) (c # s) =
     (if accepts k c
      then (case took_more c (run ((k, Many0) # items) s) of
              Some r \<Rightarrow> Some r
            | None \<Rightarrow> took [] (run items (c # s)))
      else took [] (run items (c # s)))"
| "run ((k, Many1) # items) [] = None"
| "run ((k, Many1) # items) (c # s) =
     (if accepts k c then took_more c (run ((k, Many0) # items) s) else None)"

text \<open>
  A global replacement first collects the successive matches, each search starting where the
  previous match ended (one character further after an empty match), and copies the text
  between them.
\<close>

datatype chunk = Text char | Match "string list"

function scan :: "(cls \<times> quant) list \<Rightarrow> string \<Rightarrow> chunk list" where
  "scan re [] = (case run re [] of None \<Rightarrow> [] | Some (gs, rest) \<Rightarrow> [Match gs])"
| "scan re (c # s) =
     (case run re (c # s) of
        None \<Rightarrow> Text c # scan re s
      | Some (gs, rest) \<Rightarrow>
          if length rest < length (c # s) then Match gs # scan re rest
          else Match gs # Text c # scan re s)"
  by pat_completeness auto
termination
  by (relation "measure (\<lambda>(re, s). length s)") auto

text \<open>\<open>s.replace(re, rep)\<close> with a replacement string that has no \<open>$\<close> pattern.\<close>

definition replace_all :: "(cls \<times> quant) list \<Rightarrow> string \<Rightarrow> string \<Rightarrow> string" where
  "replace_all re rep s =
     concat (map (\<lambda>ch. case ch of Text c \<Rightarrow> [c] | Match gs \<Rightarrow> rep) (scan re s))"

text \<open>
  \<open>s.replace(re, f)\<close> with a replacement function: after all matches are collected, \<open>f\<close> is
  called on them from left to right.  The function may change the state and may throw; an
  exception ends the replacement, with the state as it is then.
\<close>

datatype error = ReadFailure string

fun replace_with ::
  "(string list \<Rightarrow> 's \<Rightarrow> (error + string) \<times> 's) \<Rightarrow> chunk list \<Rightarrow> 's \<Rightarrow> (error + string) \<times> 's" where
  "replace_with f [] st = (Inr [], st)"
| "replace_with f (Text c # chunks) st =
     (case replace_with f chunks st of
        (Inl e, st') \<Rightarrow> (Inl e, st')
      | (Inr r, st') \<Rightarrow> (Inr (c # r), st'))"
| "replace_with f (Match gs # chunks) st =
     (case f gs st of
        (Inl e, st') \<Rightarrow> (Inl e, st')
      | (Inr x, st') \<Rightarrow>
          (case replace_with f chunks st' of
             (Inl e, st'') \<Rightarrow> (Inl e, st'')
           | (Inr r, st'') \<Rightarrow> (Inr (x @ r), st'')))"

section \<open>\<open>Utilities.replaceURL\<close>\<close>

text \<open>The expression \<^verbatim>\<open>/url\(\s*([^\)]+)\s*\)?/g\<close>; its group is the sixth item.\<close>

definition url_regex :: "(cls \<times> quant) list" where
  "url_regex =
     [(Lit CHR ''u'', Once), (Lit CHR ''r'', Once), (Lit CHR ''l'', Once), (Lit CHR ''('', Once),
      (Space, Many0), (NotClose, Many1), (Space, Many0), (Lit CHR '')'', Opt)]"

definition group1 :: "string list \<Rightarrow> string" where
  "group1 gs = gs ! 5"

function strip_trailing :: "string \<Rightarrow> string" where
  "strip_trailing url =
     (if length url > 0
         \<and> (charAt url (int (length url) - 1) = '' '' \<or> charAt url (int (length url) - 1) = [CHR 0x09])
      then strip_trailing (substring url 0 (length url - 1))
      else url)"
  by pat_completeness auto
termination
  by (relation "measure length") (auto simp: substring_def)

declare strip_trailing.simps [simp del]

definition trim_url :: "string \<Rightarrow> string" where
  "trim_url m =
     (let url = m;
          url = (if charAt url 0 = [CHR 0x22] \<or> charAt url 0 = [CHR 0x27]
                 then substr_from url 1 else url);
          url = strip_trailing url;
          url = (if charAt url (int (length url) - 1) = [CHR 0x22]
                    \<or> charAt url (int (length url) - 1) = [CHR 0x27]
                 then substring url 0 (length url - 1) else url)
      in url)"

definition replaceURL_callback ::
  "(string \<Rightarrow> 's \<Rightarrow> (error + string) \<times> 's) \<Rightarrow> string \<Rightarrow> 's \<Rightarrow> (error + string) \<times> 's" where
  "replaceURL_callback replacer m st =
     (let url = trim_url m
      in if \<not> startsWith url ''data:'' \<and> \<not> startsWith url ''http://''
            \<and> \<not> startsWith url ''https://''
         then (case replacer url st of
                 (Inl e, st') \<Rightarrow> (Inl e, st')
               | (Inr url', st') \<Rightarrow> (Inr (''url('' @ url' @ '')''), st'))
         else (Inr (''url('' @ url @ '')''), st))"

definition replaceURL ::
  "string \<Rightarrow> (string \<Rightarrow> 's \<Rightarrow> (error + string) \<times> 's) \<Rightarrow> 's \<Rightarrow> (error + string) \<times> 's" where
  "replaceURL contents replacer st =
     replace_with (\<lambda>gs. replaceURL_callback replacer (group1 gs)) (scan url_regex contents) st"

section \<open>The plugin (class \<open>CSSPlugin\<close>)\<close>

text \<open>
  The host supplies the file system, the path functions and the loader's \<open>req.toUrl\<close>; they
  are parameters of the model.  A buffer is the list of the bytes of a file;
  \<open>readFileSync\<close> answers \<open>None\<close> where the read throws.
\<close>

record node =
  readFileSync :: "string \<Rightarrow> string option"
  toString_base64 :: "string \<Rightarrow> string"
  toString_utf8 :: "string \<Rightarrow> string"
  path_dirname :: "string \<Rightarrow> string"
  path_join :: "string \<Rightarrow> string \<Rightarrow> string"
  toUrl :: "string \<Rightarrow> string"

text \<open>\<open>inlineResources\<close> is \<open>false\<close>, \<open>true\<close> or \<open>'base64'\<close>.\<close>

datatype inline_mode = Off | On | Base64

record ICSSEntryPointData =
  moduleName :: string
  contents :: string
  fsPath :: string

text \<open>
  The fields of the plugin that the write step uses, and two traces of what it does to the
  outside: the paths handed to \<open>fs.readFileSync\<close> and the files handed to the loader's
  \<open>write\<close> callback.
\<close>

record state =
  inlineResources :: inline_mode
  inlineResourcesLimit :: int
  entryPoints :: "string \<Rightarrow> ICSSEntryPointData list option"
  inlinedResources :: "string list"
  fs_reads :: "string list"
  written :: "(string \<times> string) list"

text \<open>\<^verbatim>\<open>/\.(svg|png)$/.test(url)\<close> and \<^verbatim>\<open>/\.svg$/.test(url)\<close>.\<close>

definition test_svg_png :: "string \<Rightarrow> bool" where
  "test_svg_png url \<longleftrightarrow> suffix ''.svg'' url \<or> suffix ''.png'' url"

definition test_svg :: "string \<Rightarrow> bool" where
  "test_svg url \<longleftrightarrow> suffix ''.svg'' url"

definition svg_text :: "string \<Rightarrow> string" where
  "svg_text text =
     replace_all [(Space, Many1)] '' ''
       (replace_all [(Lit CHR ''#'', Once)] ''%23''
         (replace_all [(Lit CHR ''&'', Once)] ''%26''
           (replace_all [(Lit CHR ''>'', Once)] ''%3E''
             (replace_all [(Lit CHR ''<'', Once)] ''%3C''
               (replace_all [(Lit CHR ''%'', Once)] ''%25''
                 (replace_all [(Lit (CHR 0x22), Once)] [CHR 0x27] text))))))"

definition rewrite_replacer :: "string \<Rightarrow> string \<Rightarrow> string \<Rightarrow> string" where
  "rewrite_replacer originalFile newFile url =
     (let absoluteUrl = joinPaths (pathOf originalFile) url
      in relativePath newFile absoluteUrl)"

definition inline_replacer ::
  "node \<Rightarrow> string \<Rightarrow> string \<Rightarrow> string \<Rightarrow> bool \<Rightarrow> int \<Rightarrow> string \<Rightarrow> state
   \<Rightarrow> (error + string) \<times> state" where
  "inline_replacer env originalFileFSPath originalFile newFile forceBase64 inlineByteLimit url st =
     (if test_svg_png url then
        (let fsPath = path_join env (path_dirname env originalFileFSPath) url;
             st = st\<lparr>fs_reads := fs_reads st @ [fsPath]\<rparr>
         in case readFileSync env fsPath of
              None \<Rightarrow> (Inl (ReadFailure fsPath), st)
            | Some fileContents \<Rightarrow>
                if int (length fileContents) < inlineByteLimit then
                  (let normalizedFSPath = replace_all [(Lit (CHR 0x5C), Once)] ''/'' fsPath;
                       st = st\<lparr>inlinedResources := inlinedResources st @ [normalizedFSPath]\<rparr>;
                       MIME = (if test_svg url then ''image/svg+xml'' else ''image/png'');
                       DATA = '';base64,'' @ toString_base64 env fileContents;
                       DATA =
                         (if \<not> forceBase64 \<and> test_svg url then
                            (let newText = svg_text (toString_utf8 env fileContents);
                                 encodedData = '','' @ newText
                             in if length encodedData < length DATA then encodedData else DATA)
                          else DATA)
                   in (Inr ([CHR 0x22] @ ''data:'' @ MIME @ DATA @ [CHR 0x22]), st))
                else (Inr (rewrite_replacer originalFile newFile url), st))
      else (Inr (rewrite_replacer originalFile newFile url), st))"

definition rewriteOrInlineUrls ::
  "node \<Rightarrow> string \<Rightarrow> string \<Rightarrow> string \<Rightarrow> string \<Rightarrow> bool \<Rightarrow> int \<Rightarrow> state
   \<Rightarrow> (error + string) \<times> state" where
  "rewriteOrInlineUrls env originalFileFSPath originalFile newFile text forceBase64 inlineByteLimit =
     replaceURL text
       (inline_replacer env originalFileFSPath originalFile newFile forceBase64 inlineByteLimit)"

definition rewriteUrls ::
  "string \<Rightarrow> string \<Rightarrow> string \<Rightarrow> state \<Rightarrow> (error + string) \<times> state" where
  "rewriteUrls originalFile newFile text =
     replaceURL text (\<lambda>url st. (Inr (rewrite_replacer originalFile newFile url), st))"

fun js_join :: "string \<Rightarrow> string list \<Rightarrow> string" where
  "js_join sep [] = []"
| "js_join sep [x] = x"
| "js_join sep (x # y # ys) = x @ sep @ js_join sep (y # ys)"

definition banner :: "string list" where
  "banner =
     [''/*---------------------------------------------------------'',
      '' * Copyright (c) Microsoft Corporation. All rights reserved.'',
      '' *--------------------------------------------------------*/'']"

fun writeFile_loop ::
  "node \<Rightarrow> string \<Rightarrow> ICSSEntryPointData list \<Rightarrow> string list \<Rightarrow> state
   \<Rightarrow> (error + string list) \<times> state" where
  "writeFile_loop env module [] acc st = (Inr acc, st)"
| "writeFile_loop env module (entry # entries) acc st =
     (case (if inlineResources st \<noteq> Off
            then rewriteOrInlineUrls env (fsPath entry) (moduleName entry) module (contents entry)
                   (inlineResources st = Base64) (inlineResourcesLimit st) st
            else rewriteUrls (moduleName entry) module (contents entry) st) of
        (Inl e, st') \<Rightarrow> (Inl e, st')
      | (Inr text, st') \<Rightarrow> writeFile_loop env module entries (acc @ [text]) st')"

definition writeFile :: "node \<Rightarrow> string \<Rightarrow> state \<Rightarrow> (error + unit) \<times> state" where
  "writeFile env module st =
     (case entryPoints st module of
        None \<Rightarrow> (Inr (), st)
      | Some entries \<Rightarrow>
          (let fileName = toUrl env (module @ ''.css'')
           in case writeFile_loop env module entries banner st of
                (Inl e, st') \<Rightarrow> (Inl e, st')
              | (Inr texts, st') \<Rightarrow>
                  (Inr (), st'\<lparr>written := written st' @ [(fileName, js_join [CHR 0x0D, CHR 0x0A] texts)]\<rparr>)))"

definition getInlinedResources :: "state \<Rightarrow> string list" where
  "getInlinedResources st = inlinedResources st"

section \<open>A sample host\<close>

text \<open>
  A small host for the examples: a file system with two files, base64 as Node encodes it,
  bytes below 128 read as text, and \<open>dirname\<close> and \<open>join\<close> as they act on plain
  slash-separated paths.
\<close>

definition base64_digit :: "nat \<Rightarrow> char" where
  "base64_digit n =
     ''ABCDEFGHIJKLMNOPQRSTUVWXYZabcdefghijklmnopqrstuvwxyz0123456789+/'' ! n"

fun base64 :: "string \<Rightarrow> string" where
  "base64 [] = []"
| "base64 [a] =
     (let n = of_char a * (16::nat)
      in [base64_digit (n div 64), base64_digit (n mod 64), CHR ''='', CHR ''=''])"
| "base64 [a, b] =
     (let n = (of_char a * 256 + of_char b) * (4::nat)
      in [base64_digit (n div 4096), base64_digit (n div 64 mod 64), base64_digit (n mod 64),
          CHR ''=''])"
| "base64 (a # b # c # rest) =
     (let n = (of_char a * 256 + of_char b) * 256 + (of_char c :: nat)
      in [base64_digit (n div 262144), base64_digit (n div 4096 mod 64),
          base64_digit (n div 64 mod 64), base64_digit (n mod 64)] @ base64 rest)"

definition sample_files :: "string \<Rightarrow> string option" where
  "sample_files p =
     (if p = ''/src/a/x.svg'' then Some ''<svg/>''
      else if p = ''/src/a/i.png'' then Some [CHR 0x89, CHR ''P'', CHR ''N'', CHR ''G'']
      else None)"

definition sample_dirname :: "string \<Rightarrow> string" where
  "sample_dirname p =
     (let d = pathOf p in if length d > 1 then butlast d else if d = [] then ''.'' else d)"

definition sample_join :: "string \<Rightarrow> string \<Rightarrow> string" where
  "sample_join a b = a @ (if startsWith b ''/'' then b else ''/'' @ b)"

definition sample_node :: node where
  "sample_node =
     \<lparr>readFileSync = sample_files, toString_base64 = base64, toString_utf8 = (\<lambda>bytes. bytes),
      path_dirname = sample_dirname, path_join = sample_join,
      toUrl = (\<lambda>name. ''/out/'' @ name)\<rparr>"

definition sample_state :: "inline_mode \<Rightarrow> int \<Rightarrow> string \<Rightarrow> state" where
  "sample_state mode limit text =
     \<lparr>inlineResources = mode, inlineResourcesLimit = limit,
      entryPoints = (\<lambda>name. if name = ''out/b''
                             then Some [\<lparr>moduleName = ''a/s'', contents = text,
                                         fsPath = ''/src/a/s.css''\<rparr>]
                             else None),
      inlinedResources = [], fs_reads = [], written = []\<rparr>"

section \<open>Auxiliary notions\<close>

text \<open>
  \<open>segments\<close> cuts a path after every slash, so that every segment but possibly the last
  ends with its slash: this is the sequence of pieces the loop of \<open>push\<close> hands to
  \<open>pushPiece\<close>.  A segment is \<open>slashed\<close> when it ends with its only slash and \<open>opn\<close> when
  it has none; \<open>wfp\<close> holds of a list of segments that is the cut of its own concatenation,
  and \<open>normal\<close> of a list that pushing leaves unchanged.
\<close>

fun segments :: "string \<Rightarrow> string list" where
  "segments [] = []"
| "segments (c # cs) =
     (if c = CHR ''/'' then [c] # segments cs
      else (case segments cs of [] \<Rightarrow> [[c]] | p # ps \<Rightarrow> (c # p) # ps))"

definition slashed :: "string \<Rightarrow> bool" where
  "slashed p \<longleftrightarrow> (\<exists>x. p = x @ ''/'' \<and> CHR ''/'' \<notin> set x)"

definition opn :: "string \<Rightarrow> bool" where
  "opn p \<longleftrightarrow> p \<noteq> [] \<and> CHR ''/'' \<notin> set p"

fun wfp :: "string list \<Rightarrow> bool" where
  "wfp [] = True"
| "wfp [p] = (slashed p \<or> opn p)"
| "wfp (p # q # ps) = (slashed p \<and> wfp (q # ps))"

definition normal :: "string list \<Rightarrow> bool" where
  "normal ps \<longleftrightarrow> foldl pushPiece [] ps = ps"

text \<open>
  For the rewriter: \<open>url_tail\<close> is the part of the \<open>url(\<close> expression after its leading
  \<open>\s*\<close>, and \<open>capture\<close> the text its group takes from a token without a closing
  parenthesis.  \<open>svg_escape\<close> and \<open>collapse_spaces\<close> say what the percent-escaping of an SVG
  does, character by character: the escapes of the six characters, and every run of
  white space turned into one space.
\<close>

definition url_tail :: "(cls \<times> quant) list" where
  "url_tail = [(NotClose, Many1), (Space, Many0), (Lit CHR '')'', Opt)]"

definition capture :: "string \<Rightarrow> string" where
  "capture tok = (if dropWhile is_space tok = [] then [last tok] else dropWhile is_space tok)"

function collapse_spaces :: "string \<Rightarrow> string" where
  "collapse_spaces [] = []"
| "collapse_spaces (c # s) =
     (if is_space c then CHR '' '' # collapse_spaces (dropWhile is_space s)
      else c # collapse_spaces s)"
  by pat_completeness auto
termination
  by (relation "measure length") (auto simp: length_dropWhile_le less_Suc_eq_le)

definition svg_escape :: "char \<Rightarrow> string" where
  "svg_escape c =
     (if c = CHR 0x22 then [CHR 0x27]
      else if c = CHR ''%'' then ''%25''
      else if c = CHR ''<'' then ''%3C''
      else if c = CHR ''>'' then ''%3E''
      else if c = CHR ''&'' then ''%26''
      else if c = CHR ''#'' then ''%23''
      else [c])"

section \<open>Lemmas on strings and paths\<close>

lemma first_index_None: "first_index c s = None \<longleftrightarrow> c \<notin> set s"
  by (induction s) auto

lemma first_index_append: "c \<notin> set xs \<Longrightarrow> first_index c (xs @ c # ys) = Some (length xs)"
  by (induction xs) auto

lemma first_index_split:
  "first_index c s = Some i \<Longrightarrow> c \<notin> set (take i s) \<and> s = take i s @ c # drop (Suc i) s"
  by (induction s arbitrary: i) (auto split: if_splits)

lemma startsWith_prefix: "startsWith s p \<longleftrightarrow> prefix p s"
  by (auto simp: startsWith_def substr_def prefix_def)
     (metis append_eq_conv_conj)

lemma next_piece_slash:
  "CHR ''/'' \<notin> set x \<Longrightarrow> next_piece (x @ CHR ''/'' # s) = (x @ ''/'', s)"
  by (simp add: next_piece_def indexOf_def first_index_append substring_def substr_from_def
                Let_def nat_add_distrib)

lemma next_piece_none: "CHR ''/'' \<notin> set x \<Longrightarrow> next_piece x = (x, [])"
  using first_index_None [of "CHR ''/''" x]
  by (simp add: next_piece_def indexOf_def)

lemma segments_slash:
  "CHR ''/'' \<notin> set x \<Longrightarrow> segments (x @ CHR ''/'' # s) = (x @ ''/'') # segments s"
  by (induction x) auto

lemma segments_Nil_iff [simp]: "segments s = [] \<longleftrightarrow> s = []"
  by (cases s) (auto split: list.splits)

lemma segments_none: "CHR ''/'' \<notin> set x \<Longrightarrow> x \<noteq> [] \<Longrightarrow> segments x = [x]"
proof (induction x)
  case Nil
  then show ?case by simp
next
  case (Cons a x)
  then show ?case by (cases "x = []") auto
qed

lemma split_first_slash:
  "CHR ''/'' \<in> set s \<Longrightarrow> \<exists>x r. s = x @ CHR ''/'' # r \<and> CHR ''/'' \<notin> set x"
  by (rule split_list_first)

lemma push_foldl: "push pieces path = foldl pushPiece pieces (segments path)"
proof (induction pieces path rule: push.induct)
  case (1 pieces path)
  show ?case
  proof (cases "path = []")
    case True
    then show ?thesis by (simp add: push.simps)
  next
    case False
    show ?thesis
    proof (cases "CHR ''/'' \<in> set path")
      case True
      then obtain x r where s: "path = x @ CHR ''/'' # r" "CHR ''/'' \<notin> set x"
        using split_first_slash by blast
      have np: "next_piece path = (x @ ''/'', r)" using s by (simp add: next_piece_slash)
      have "push pieces path = push (pushPiece pieces (x @ ''/'')) r"
        using False np by (subst push.simps) simp
      also have "\<dots> = foldl pushPiece (pushPiece pieces (x @ ''/'')) (segments r)"
        using "1.IH" False np by simp
      finally show ?thesis using s by (simp add: segments_slash)
    next
      case nos: False
      have np: "next_piece path = (path, [])" using nos by (rule next_piece_none)
      have "push pieces path = push (pushPiece pieces path) []"
        using False np by (subst push.simps) simp
      then show ?thesis using False nos by (simp add: push.simps segments_none)
    qed
  qed
qed

lemma concat_segments: "concat (segments s) = s"
  by (induction s) (auto split: list.splits)

lemma lastIndexOf_none: "c \<notin> set s \<Longrightarrow> lastIndexOf s c = - 1"
  using first_index_None [of c "rev s"] by (simp add: lastIndexOf_def)

lemma lastIndexOf_last: "c \<notin> set ys \<Longrightarrow> lastIndexOf (xs @ c # ys) c = int (length xs)"
  using first_index_append [of c "rev ys" "rev xs"] by (simp add: lastIndexOf_def)

lemma split_last_char:
  "c \<in> set s \<Longrightarrow> \<exists>xs ys. s = xs @ c # ys \<and> c \<notin> set ys"
  by (rule split_list_last)

lemma pathOf_none: "CHR ''/'' \<notin> set s \<Longrightarrow> pathOf s = []"
  by (simp add: pathOf_def lastIndexOf_none)

lemma pathOf_slash: "CHR ''/'' \<notin> set ys \<Longrightarrow> pathOf (xs @ CHR ''/'' # ys) = xs @ ''/''"
  by (simp add: pathOf_def lastIndexOf_last substr_def nat_add_distrib)

lemma pathOf_cases:
  obtains (none) "CHR ''/'' \<notin> set s" "pathOf s = []"
  | (slash) d name where "s = (d @ ''/'') @ name" "pathOf s = d @ ''/''" "CHR ''/'' \<notin> set name"
proof (cases "CHR ''/'' \<in> set s")
  case True
  from split_last_char [OF this]
  obtain xs ys where *: "s = xs @ CHR ''/'' # ys" "CHR ''/'' \<notin> set ys"
    by (elim exE conjE)
  then have "pathOf s = xs @ ''/''" by (simp add: pathOf_slash)
  with * slash [of xs ys] show ?thesis by simp
next
  case False
  then show ?thesis using none by (simp add: pathOf_none)
qed

lemma pathOf_ends: "pathOf s = [] \<or> last (pathOf s) = CHR ''/''"
  by (cases s rule: pathOf_cases) simp_all

lemma pathOf_prefix: "prefix (pathOf s) s"
proof (cases s rule: pathOf_cases)
  case none
  then show ?thesis by simp
next
  case (slash d name)
  have "prefix (d @ ''/'') ((d @ ''/'') @ name)" by (rule prefixI) simp
  then show ?thesis using slash(1,2) by simp
qed

lemma prefix_slash_ended:
  assumes "prefix q (d @ name)" and "q \<noteq> []" and "last q = c" and "c \<notin> set name"
  shows "prefix q d"
proof -
  from assms(1) have "prefix q d \<or> (\<exists>us. q = d @ us \<and> prefix us name)"
    by (simp add: prefix_append)
  then show ?thesis
  proof
    assume "prefix q d"
    then show ?thesis .
  next
    assume "\<exists>us. q = d @ us \<and> prefix us name"
    then obtain us where us: "q = d @ us" "prefix us name" by blast
    show ?thesis
    proof (cases "us = []")
      case True
      then show ?thesis using us by simp
    next
      case False
      then have "last q = last us" using us by simp
      moreover have "last us \<in> set us" using False by simp
      moreover have "set us \<subseteq> set name" using us(2) by (rule set_mono_prefix)
      ultimately show ?thesis using assms(3,4) by auto
    qed
  qed
qed

lemma pathOf_max:
  assumes "prefix q s" and "q = [] \<or> last q = CHR ''/''"
  shows "prefix q (pathOf s)"
proof (cases "q = []")
  case True
  then show ?thesis by simp
next
  case False
  with assms have l: "last q = CHR ''/''" by simp
  show ?thesis
  proof (cases s rule: pathOf_cases)
    case none
    have "last q \<in> set q" using False by simp
    moreover have "set q \<subseteq> set s" using assms(1) by (rule set_mono_prefix)
    ultimately show ?thesis using l none(1) by auto
  next
    case (slash d name)
    have "prefix q ((d @ ''/'') @ name)" using assms(1) unfolding slash(1) [symmetric] .
    then have "prefix q (d @ ''/'')" using False l slash(3) by (rule prefix_slash_ended)
    then show ?thesis unfolding slash(2) .
  qed
qed

lemma commonPrefix_loop_lcp:
  "i \<le> len \<Longrightarrow> len = min (length a) (length b) \<Longrightarrow>
   commonPrefix_loop a b len i = take i a @ longest_common_prefix (drop i a) (drop i b)"
proof (induction a b len i rule: commonPrefix_loop.induct)
  case (1 str1 str2 len i)
  show ?case
  proof (cases "i < len")
    case True
    then have la: "i < length str1" and lb: "i < length str2" using "1.prems" by auto
    have da: "drop i str1 = str1 ! i # drop (Suc i) str1" using la by (simp add: Cons_nth_drop_Suc)
    have db: "drop i str2 = str2 ! i # drop (Suc i) str2" using lb by (simp add: Cons_nth_drop_Suc)
    show ?thesis
    proof (cases "str1 ! i = str2 ! i")
      case eq: True
      have "commonPrefix_loop str1 str2 len i = commonPrefix_loop str1 str2 len (i + 1)"
        using True eq by (subst commonPrefix_loop.simps) simp
      also have "\<dots> = take (i + 1) str1
                      @ longest_common_prefix (drop (i + 1) str1) (drop (i + 1) str2)"
        using "1.IH" True eq "1.prems" by simp
      finally show ?thesis using da db eq la by (simp add: take_Suc_conv_app_nth)
    next
      case neq: False
      have "commonPrefix_loop str1 str2 len i = take i str1"
        using True neq by (subst commonPrefix_loop.simps) (simp add: substring_def)
      then show ?thesis using da db neq by simp
    qed
  next
    case False
    then have i: "i = len" using \<open>i \<le> len\<close> by simp
    have "commonPrefix_loop str1 str2 len i = take len str1"
      using False by (subst commonPrefix_loop.simps) (simp add: substring_def)
    moreover have "length str1 \<le> i \<or> length str2 \<le> i"
      using i \<open>len = min (length str1) (length str2)\<close> by linarith
    then have "drop i str1 = [] \<or> drop i str2 = []" by simp
    then have "longest_common_prefix (drop i str1) (drop i str2) = []" by auto
    ultimately show ?thesis using i by simp
  qed
qed

lemma commonPrefix_lcp: "commonPrefix a b = longest_common_prefix a b"
  by (simp add: commonPrefix_def commonPrefix_loop_lcp)

lemma commonFolderPrefix_pathOf: "commonFolderPrefix a b = pathOf (commonPrefix a b)"
  by (simp add: commonFolderPrefix_def pathOf_def substring_def substr_def Let_def)

lemma cfp_prefix1: "prefix (commonFolderPrefix a b) a"
  unfolding commonFolderPrefix_pathOf commonPrefix_lcp
  by (meson longest_common_prefix_prefix1 pathOf_prefix prefix_order.trans)

lemma cfp_prefix2: "prefix (commonFolderPrefix a b) b"
  unfolding commonFolderPrefix_pathOf commonPrefix_lcp
  by (meson longest_common_prefix_prefix2 pathOf_prefix prefix_order.trans)

lemma cfp_ends: "commonFolderPrefix a b = [] \<or> last (commonFolderPrefix a b) = CHR ''/''"
  unfolding commonFolderPrefix_pathOf by (rule pathOf_ends)

lemma cfp_max:
  "prefix q a \<Longrightarrow> prefix q b \<Longrightarrow> q = [] \<or> last q = CHR ''/'' \<Longrightarrow>
   prefix q (commonFolderPrefix a b)"
  unfolding commonFolderPrefix_pathOf commonPrefix_lcp
  by (simp add: longest_common_prefix_max_prefix pathOf_max)

lemma ascend_replicate: "ascend i n r = r @ concat (replicate (n - i) ''../'')"
proof (induction i n r rule: ascend.induct)
  case (1 i upCount result)
  show ?case
  proof (cases "i < upCount")
    case True
    then have "replicate (upCount - i) ''../'' = ''../'' # replicate (upCount - (i + 1)) ''../''"
      by (metis Suc_diff_Suc Suc_eq_plus1 replicate_Suc)
    then show ?thesis using True "1.IH"
      by (subst ascend.simps) simp
  next
    case False
    then show ?thesis by (subst ascend.simps) simp
  qed
qed

lemma js_split_not_Nil [simp]: "js_split c s \<noteq> []"
  by (induction s) (auto split: list.splits)

lemma length_js_split: "length (js_split c s) = Suc (count_list s c)"
  by (induction s) (auto split: list.splits)

lemma slashed_Cons: "c \<noteq> CHR ''/'' \<Longrightarrow> slashed p \<Longrightarrow> slashed (c # p)"
  unfolding slashed_def by (metis Cons_eq_appendI set_ConsD)

lemma slashed_single: "slashed ''/''"
  unfolding slashed_def by simp

lemma wfp_Cons: "slashed p \<Longrightarrow> wfp ps \<Longrightarrow> wfp (p # ps)"
  by (cases ps) auto

lemma wfp_segments: "wfp (segments s)"
proof (induction s)
  case Nil
  then show ?case by simp
next
  case (Cons c cs)
  show ?case
  proof (cases "c = CHR ''/''")
    case True
    then show ?thesis using Cons by (simp add: wfp_Cons slashed_single)
  next
    case False
    show ?thesis
    proof (cases "segments cs")
      case Nil
      then show ?thesis using False by (simp add: opn_def)
    next
      case (Cons p ps)
      show ?thesis
      proof (cases ps)
        case Nil
        then have "slashed p \<or> opn p" using Cons.IH Cons by simp
        then have "slashed (c # p) \<or> opn (c # p)"
          using False by (auto simp: slashed_Cons opn_def)
        then show ?thesis using False Cons Nil by simp
      next
        case (Cons q qs)
        then have "slashed p" "wfp (q # qs)" using Cons.IH \<open>segments cs = p # ps\<close> by simp_all
        then show ?thesis using False \<open>segments cs = p # ps\<close> Cons
          by (simp add: slashed_Cons)
      qed
    qed
  qed
qed

lemma segments_concat: "wfp ps \<Longrightarrow> segments (concat ps) = ps"
proof (induction ps rule: wfp.induct)
  case 1
  then show ?case by simp
next
  case (2 p)
  then have "slashed p \<or> opn p" by simp
  then show ?case
  proof
    assume "slashed p"
    then obtain x where "p = x @ ''/''" "CHR ''/'' \<notin> set x" unfolding slashed_def by blast
    then show ?thesis using segments_slash [of x "[]"] by simp
  next
    assume "opn p"
    then show ?thesis by (simp add: opn_def segments_none)
  qed
next
  case (3 p q ps)
  then have "slashed p" and r: "segments (concat (q # ps)) = q # ps" by simp_all
  then obtain x where "p = x @ ''/''" "CHR ''/'' \<notin> set x" unfolding slashed_def by blast
  then show ?case using segments_slash [of x "concat (q # ps)"] r by simp
qed

lemma all_slashed_wfp: "list_all slashed T \<Longrightarrow> wfp T"
  by (induction T) (auto simp: wfp_Cons)

lemma wfp_snoc: "list_all slashed T \<Longrightarrow> slashed w \<or> opn w \<Longrightarrow> wfp (T @ [w])"
  by (induction T) (auto simp: wfp_Cons)

lemma pushPiece_cases:
  "pushPiece T w = T \<or> pushPiece T w = butlast T \<or> pushPiece T w = T @ [w]"
  by (simp add: pushPiece_def Let_def)

lemma list_all_butlast: "list_all P xs \<Longrightarrow> list_all P (butlast xs)"
  by (metis in_set_butlastD list_all_iff)

lemma slashed_pushPiece:
  "list_all slashed T \<Longrightarrow> slashed w \<Longrightarrow> list_all slashed (pushPiece T w)"
  using pushPiece_cases [of T w] by (auto simp: list_all_butlast)

lemma wfp_pushPiece:
  "list_all slashed T \<Longrightarrow> slashed w \<or> opn w \<Longrightarrow> wfp (pushPiece T w)"
  using pushPiece_cases [of T w] by (auto simp: list_all_butlast all_slashed_wfp wfp_snoc)

lemma wfp_foldl: "list_all slashed T \<Longrightarrow> wfp W \<Longrightarrow> wfp (foldl pushPiece T W)"
proof (induction W arbitrary: T rule: wfp.induct)
  case 1
  then show ?case by (simp add: all_slashed_wfp)
next
  case (2 p)
  then show ?case by (simp add: wfp_pushPiece)
next
  case (3 p q ps)
  then show ?case by (simp add: slashed_pushPiece)
qed

lemma segments_dir: "s = [] \<or> last s = CHR ''/'' \<Longrightarrow> list_all slashed (segments s)"
proof (induction s)
  case Nil
  then show ?case by simp
next
  case (Cons c cs)
  show ?case
  proof (cases "cs = []")
    case True
    then show ?thesis using Cons.prems by (simp add: slashed_single)
  next
    case False
    then have ih: "list_all slashed (segments cs)" using Cons by simp
    obtain p ps where ps: "segments cs = p # ps" using False by (cases "segments cs") auto
    show ?thesis
    proof (cases "c = CHR ''/''")
      case True
      then show ?thesis using ih by (simp add: slashed_single)
    next
      case False
      then show ?thesis using ih ps by (simp add: slashed_Cons)
    qed
  qed
qed

lemma segments_append:
  "xs = [] \<or> last xs = CHR ''/'' \<Longrightarrow> segments (xs @ ys) = segments xs @ segments ys"
proof (induction xs)
  case Nil
  then show ?case by simp
next
  case (Cons c cs)
  show ?case
  proof (cases "cs = []")
    case True
    then show ?thesis using Cons.prems by simp
  next
    case False
    then have ih: "segments (cs @ ys) = segments cs @ segments ys" using Cons by simp
    obtain p ps where ps: "segments cs = p # ps" using False by (cases "segments cs") auto
    show ?thesis using ih ps by simp
  qed
qed

lemma length_pushPiece: "length (pushPiece T w) \<le> Suc (length T)"
  using pushPiece_cases [of T w] by auto

lemma length_foldl_pushPiece: "length (foldl pushPiece T W) \<le> length T + length W"
proof (induction W arbitrary: T)
  case Nil
  then show ?case by simp
next
  case (Cons w W)
  have "length (foldl pushPiece (pushPiece T w) W) \<le> length (pushPiece T w) + length W"
    by (rule Cons.IH)
  then show ?case using length_pushPiece [of T w] by simp
qed

lemma normal_snoc:
  assumes "normal (B @ [l])"
  shows "normal B" and "pushPiece B l = B @ [l]"
proof -
  let ?X = "foldl pushPiece [] B"
  have eq: "pushPiece ?X l = B @ [l]" using assms by (simp add: normal_def)
  have len: "length ?X \<le> length B" using length_foldl_pushPiece [of "[]" B] by simp
  from pushPiece_cases [of ?X l] have "?X @ [l] = B @ [l]"
  proof (elim disjE)
    assume "pushPiece ?X l = ?X"
    then have "length ?X = Suc (length B)" using eq by (metis length_append_singleton)
    then show ?thesis using len by simp
  next
    assume "pushPiece ?X l = butlast ?X"
    then have "length (butlast ?X) = Suc (length B)" using eq by (metis length_append_singleton)
    then show ?thesis using len by simp
  next
    assume "pushPiece ?X l = ?X @ [l]"
    then show ?thesis using eq by simp
  qed
  then have x: "?X = B" by simp
  then show "normal B" by (simp add: normal_def)
  show "pushPiece B l = B @ [l]" using eq x by simp
qed

lemma normal_prefix: "normal (A @ B) \<Longrightarrow> normal A"
proof (induction B rule: rev_induct)
  case Nil
  then show ?case by simp
next
  case (snoc l B)
  then have "normal ((A @ B) @ [l])" by simp
  then have "normal (A @ B)" by (rule normal_snoc(1))
  then show ?case by (rule snoc.IH)
qed

lemma normal_push: "normal (A @ B) \<Longrightarrow> foldl pushPiece A B = A @ B"
proof -
  assume n: "normal (A @ B)"
  then have "foldl pushPiece [] A = A" using normal_prefix by (simp add: normal_def)
  then have "foldl pushPiece A B = foldl pushPiece [] (A @ B)" by simp
  then show ?thesis using n by (simp add: normal_def)
qed

lemma normal_pushPiece: "normal T \<Longrightarrow> normal (pushPiece T w)"
proof -
  assume n: "normal T"
  from pushPiece_cases [of T w] show ?thesis
  proof (elim disjE)
    assume "pushPiece T w = T"
    then show ?thesis using n by simp
  next
    assume b: "pushPiece T w = butlast T"
    show ?thesis
    proof (cases "T = []")
      case True
      then show ?thesis using b n by simp
    next
      case False
      then have "normal (butlast T @ [last T])" using n by simp
      then show ?thesis unfolding b by (rule normal_snoc(1))
    qed
  next
    assume "pushPiece T w = T @ [w]"
    then show ?thesis using n by (simp add: normal_def)
  qed
qed

lemma normal_foldl: "normal T \<Longrightarrow> normal (foldl pushPiece T W)"
  by (induction W arbitrary: T) (simp_all add: normal_pushPiece)

lemma pop_all:
  "\<forall>q\<in>set B. q \<noteq> [] \<and> q \<noteq> ''/'' \<and> q \<noteq> ''../'' \<Longrightarrow>
   foldl pushPiece (A @ B) (replicate (length B) ''../'') = A"
proof (induction B rule: rev_induct)
  case Nil
  then show ?case by simp
next
  case (snoc q B)
  have "pushPiece (A @ B @ [q]) ''../'' = A @ B"
    using snoc.prems by (simp add: pushPiece_def truthy_def butlast_append)
  then show ?case using snoc by simp
qed

lemma keep_pushPiece:
  "u = ''/'' \<or> u = ''../'' \<Longrightarrow> \<exists>C. pushPiece (A @ u # B) w = A @ u # C"
proof (cases "B = []")
  case True
  assume "u = ''/'' \<or> u = ''../''"
  then show ?thesis using True by (auto simp: pushPiece_def truthy_def)
next
  case False
  have "butlast (A @ u # B) = A @ u # butlast B" using False by (simp add: butlast_append)
  then show ?thesis using pushPiece_cases [of "A @ u # B" w] by auto
qed

lemma keep_foldl:
  "u = ''/'' \<or> u = ''../'' \<Longrightarrow> \<exists>C. foldl pushPiece (A @ u # B) W = A @ u # C"
proof (induction W arbitrary: B)
  case Nil
  then show ?case by simp
next
  case (Cons w W)
  from keep_pushPiece [OF Cons.prems] obtain C where "pushPiece (A @ u # B) w = A @ u # C"
    by blast
  then show ?case using Cons.IH [OF Cons.prems, of C] by simp
qed

lemma startsWith_slash: "(length b > 0 \<and> charAt b 0 = ''/'') \<longleftrightarrow> startsWith b ''/''"
  by (cases b) (auto simp: charAt_def startsWith_def substr_def)

lemma joinPaths_fold:
  "joinPaths a b =
     take (aPathStartIndex a) a
     @ concat (foldl pushPiece
         (if startsWith b ''/'' then []
          else foldl pushPiece [] (segments (drop (aPathStartIndex a) a)))
         (segments b))"
  using startsWith_slash [of b]
  by (simp add: joinPaths_def Let_def push_foldl substring_def substr_from_def)

lemma aPathStartIndex_plain:
  "\<not> startsWith a ''//'' \<Longrightarrow> \<not> startsWith a ''http://'' \<Longrightarrow> \<not> startsWith a ''https://''
   \<Longrightarrow> aPathStartIndex a = 0"
  by (simp add: aPathStartIndex_def findSlashIndexAfterPrefix_def or_else_def)

lemma length_segments_dir:
  "s = [] \<or> last s = CHR ''/'' \<Longrightarrow> length (segments s) = count_list s CHR ''/''"
proof (induction s)
  case Nil
  then show ?case by simp
next
  case (Cons c cs)
  show ?case
  proof (cases "cs = []")
    case True
    then show ?thesis using Cons.prems by simp
  next
    case False
    then have ih: "length (segments cs) = count_list cs CHR ''/''" using Cons by simp
    obtain p ps where ps: "segments cs = p # ps" using False by (cases "segments cs") auto
    show ?thesis using ih ps by simp
  qed
qed

lemma segments_ups:
  "segments (concat (replicate k ''../'') @ t) = replicate k ''../'' @ segments t"
proof (induction k)
  case 0
  then show ?case by simp
next
  case (Suc k)
  then show ?case using segments_slash [of "''..''" "concat (replicate k ''../'') @ t"] by simp
qed

lemma relativePath_unfold:
  "relativePath f t =
     (if startsWith t ''/'' \<or> startsWith t ''http://'' \<or> startsWith t ''https://'' then t
      else concat (replicate (count_list (drop (length (commonFolderPrefix f t)) f) CHR ''/'') ''../'')
           @ drop (length (commonFolderPrefix f t)) t)"
  by (simp add: relativePath_def Let_def substr_from_def ascend_replicate length_js_split)

lemma pathOf_plain:
  assumes "\<not> startsWith f ''//''" "\<not> startsWith f ''http://''" "\<not> startsWith f ''https://''"
  shows "aPathStartIndex (pathOf f) = 0"
proof -
  have "\<not> startsWith (pathOf f) q" if "\<not> startsWith f q" for q
    using that pathOf_prefix [of f] unfolding startsWith_prefix
    by (meson prefix_order.trans)
  then show ?thesis using assms by (simp add: aPathStartIndex_plain)
qed

lemma joinPaths_empty_base: "joinPaths [] d = concat (foldl pushPiece [] (segments d))"
  by (simp add: joinPaths_fold aPathStartIndex_def findSlashIndexAfterPrefix_def or_else_def
                startsWith_def substr_def)

lemma normal_dir:
  assumes "joinPaths [] (pathOf f) = pathOf f"
  shows "normal (segments (pathOf f))"
proof -
  let ?S = "segments (pathOf f)"
  have "wfp (foldl pushPiece [] ?S)" by (rule wfp_foldl) (simp_all add: wfp_segments)
  then have "segments (concat (foldl pushPiece [] ?S)) = foldl pushPiece [] ?S"
    by (rule segments_concat)
  moreover have "concat (foldl pushPiece [] ?S) = pathOf f"
    using assms by (simp add: joinPaths_empty_base)
  ultimately show ?thesis by (simp add: normal_def)
qed

lemma stack_absolute:
  "startsWith b ''/'' \<Longrightarrow> \<exists>C. foldl pushPiece [] (segments b) = ''/'' # C"
proof -
  assume "startsWith b ''/''"
  then obtain b' where b: "b = CHR ''/'' # b'" by (cases b) (auto simp: startsWith_def substr_def)
  have "\<exists>C. foldl pushPiece ([] @ ''/'' # []) (segments b') = [] @ ''/'' # C"
    by (rule keep_foldl) simp
  then show ?thesis using b by (simp add: pushPiece_def)
qed

lemma roundtrip_core:
  assumes plain: "aPathStartIndex (pathOf f) = 0"
    and nrm: "normal (segments (pathOf f))"
    and a: "a = joinPaths (pathOf f) rel"
    and r: "r = relativePath f a"
    and ah: "\<not> startsWith a ''http://''" "\<not> startsWith a ''https://''"
    and rs: "startsWith r ''/'' \<longrightarrow> startsWith a ''/''"
  shows "joinPaths (pathOf f) r = a"
proof -
  let ?D = "pathOf f"
  let ?S = "segments ?D"
  define T0 where "T0 = (if startsWith rel ''/'' then [] else ?S)"
  define ps where "ps = foldl pushPiece T0 (segments rel)"
  have Dend: "?D = [] \<or> last ?D = CHR ''/''" by (rule pathOf_ends)
  have Ssl: "list_all slashed ?S" using Dend by (rule segments_dir)
  have T0sl: "list_all slashed T0" using Ssl by (simp add: T0_def)
  have T0n: "normal T0" using nrm by (simp add: T0_def normal_def)
  have a_ps: "a = concat ps"
    using a plain nrm by (simp add: joinPaths_fold ps_def T0_def normal_def)
  have psn: "normal ps" unfolding ps_def using T0n by (rule normal_foldl)
  have pswf: "wfp ps" unfolding ps_def using T0sl wfp_segments by (rule wfp_foldl)
  have seg_a: "segments a = ps" unfolding a_ps using pswf by (rule segments_concat)
  show ?thesis
  proof (cases "startsWith a ''/''")
    case True
    then have "r = a" using r by (simp add: relativePath_unfold)
    moreover have "joinPaths ?D a = concat (foldl pushPiece [] (segments a))"
      using True plain by (simp add: joinPaths_fold)
    moreover have "foldl pushPiece [] ps = ps" using psn by (simp add: normal_def)
    ultimately show ?thesis using seg_a a_ps by simp
  next
    case False
    have rel_ns: "\<not> startsWith rel ''/''"
    proof
      assume "startsWith rel ''/''"
      then obtain C where "ps = ''/'' # C"
        using stack_absolute [of rel] by (auto simp: ps_def T0_def)
      then show False using False a_ps by (simp add: startsWith_def substr_def)
    qed
    then have ps_S: "ps = foldl pushPiece ?S (segments rel)" by (simp add: ps_def T0_def)
    define P where "P = commonFolderPrefix f a"
    have P1: "prefix P f" and P2: "prefix P a" and Pend: "P = [] \<or> last P = CHR ''/''"
      unfolding P_def by (rule cfp_prefix1, rule cfp_prefix2, rule cfp_ends)
    have "prefix P ?D" using P1 Pend by (rule pathOf_max)
    then obtain D2 where D2: "?D = P @ D2" by (auto simp: prefix_def)
    have D2end: "D2 = [] \<or> last D2 = CHR ''/''" using Dend D2 by (cases "D2 = []") auto
    obtain t where t: "a = P @ t" using P2 by (auto simp: prefix_def)
    obtain name where name: "f = ?D @ name" "CHR ''/'' \<notin> set name"
    proof (cases f rule: pathOf_cases)
      case none
      then show ?thesis using that [of f] by simp
    next
      case (slash d name)
      then show ?thesis using that [of name] by simp
    qed
    have S_split: "?S = segments P @ segments D2"
      using Pend by (simp add: D2 segments_append)
    have ps_split: "ps = segments P @ segments t"
      using Pend seg_a by (simp add: t segments_append)
    define k where "k = length (segments D2)"
    have "drop (length P) f = D2 @ name"
    proof -
      have "f = P @ D2 @ name" using name(1) D2 by simp
      then show ?thesis by (metis append_eq_conv_conj)
    qed
    then have cnt: "count_list (drop (length P) f) CHR ''/'' = k"
      using name(2) D2end by (simp add: k_def length_segments_dir)
    have "drop (length P) a = t" using t by simp
    then have r_eq: "r = concat (replicate k ''../'') @ t"
      using r False ah cnt by (simp add: relativePath_unfold P_def [symmetric])
    have r_ns: "\<not> startsWith r ''/''" using rs False by blast
    have pop: "\<forall>q\<in>set (segments D2). q \<noteq> [] \<and> q \<noteq> ''/'' \<and> q \<noteq> ''../''"
    proof
      fix q assume q: "q \<in> set (segments D2)"
      have "list_all slashed (segments D2)" using D2end by (rule segments_dir)
      then have qs: "slashed q" using q by (simp add: list_all_iff)
      then have qne: "q \<noteq> []" by (auto simp: slashed_def)
      have "q \<noteq> ''/'' \<and> q \<noteq> ''../''"
      proof (rule ccontr)
        assume "\<not> (q \<noteq> ''/'' \<and> q \<noteq> ''../'')"
        then have u: "q = ''/'' \<or> q = ''../''" by blast
        from q obtain B1 B2 where B: "segments D2 = B1 @ q # B2" by (meson split_list)
        have "?S = (segments P @ B1) @ q # B2" using S_split B by simp
        then obtain C where C: "ps = (segments P @ B1) @ q # C"
          using keep_foldl [OF u, of "segments P @ B1" B2 "segments rel"] ps_S by auto
        define Q where "Q = P @ concat B1 @ q"
        have "a = Q @ concat C" using a_ps C by (simp add: Q_def concat_segments)
        then have Qa: "prefix Q a" by (rule prefixI)
        have "?D = concat ?S" by (simp add: concat_segments)
        also have "\<dots> = Q @ concat B2"
          using \<open>?S = (segments P @ B1) @ q # B2\<close> by (simp add: Q_def concat_segments)
        finally have "prefix Q ?D" by (rule prefixI)
        then have Qf: "prefix Q f" using pathOf_prefix [of f] by (rule prefix_order.trans)
        have "last Q = CHR ''/''" using u by (auto simp: Q_def)
        then have "prefix Q P" unfolding P_def using Qf Qa by (intro cfp_max) simp_all
        then have "length Q \<le> length P" by (rule prefix_length_le)
        then show False using qne by (simp add: Q_def)
      qed
      then show "q \<noteq> [] \<and> q \<noteq> ''/'' \<and> q \<noteq> ''../''" using qne by simp
    qed
    have "joinPaths ?D r = concat (foldl pushPiece ?S (segments r))"
      using r_ns plain nrm by (simp add: joinPaths_fold normal_def)
    also have "segments r = replicate k ''../'' @ segments t"
      unfolding r_eq by (rule segments_ups)
    also have "foldl pushPiece ?S (replicate k ''../'' @ segments t)
               = foldl pushPiece (segments P) (segments t)"
      using pop_all [OF pop, of "segments P"] by (simp add: S_split k_def)
    also have "\<dots> = segments P @ segments t"
      using psn unfolding ps_split by (rule normal_push)
    finally show ?thesis using ps_split a_ps by simp
  qed
qed

section \<open>Lemmas on matching and replacement\<close>

lemma took_Some [simp]: "took g (Some (gs, r)) = Some (g # gs, r)"
  by (simp add: took_def)

lemma took_None [simp]: "took g None = None"
  by (simp add: took_def)

lemma took_more_Some [simp]: "took_more c (Some (g # gs, r)) = Some ((c # g) # gs, r)"
  by (simp add: took_more_def)

lemma took_more_None [simp]: "took_more c None = None"
  by (simp add: took_more_def)

lemma run_many0_stop:
  "s = [] \<or> \<not> accepts k (hd s) \<Longrightarrow> run ((k, Many0) # items) s = took [] (run items s)"
  by (cases s) auto

lemma run_many0_all:
  "\<forall>c\<in>set xs. accepts k c \<Longrightarrow> s = [] \<or> \<not> accepts k (hd s) \<Longrightarrow> run items s = Some (gs, r) \<Longrightarrow>
   run ((k, Many0) # items) (xs @ s) = Some (xs # gs, r)"
  by (induction xs) (simp_all add: run_many0_stop)

lemma run_many1_all:
  "\<forall>c\<in>set xs. accepts k c \<Longrightarrow> xs \<noteq> [] \<Longrightarrow> s = [] \<or> \<not> accepts k (hd s) \<Longrightarrow>
   run items s = Some (gs, r) \<Longrightarrow> run ((k, Many1) # items) (xs @ s) = Some (xs # gs, r)"
  by (cases xs) (simp_all add: run_many0_all)

lemma is_space_not_close: "is_space c \<Longrightarrow> c \<noteq> CHR '')''"
  by (auto simp: is_space_def)

lemma run_url_tail_body:
  assumes "body \<noteq> []" and "CHR '')'' \<notin> set body"
  shows "run url_tail body = Some ([body, [], []], [])"
proof -
  have "run [(Space, Many0), (Lit CHR '')'', Opt)] [] = Some ([[], []], [])" by simp
  then have "run url_tail (body @ []) = Some (body # [[], []], [])"
    unfolding url_tail_def using assms by (intro run_many1_all) auto
  then show ?thesis by simp
qed

lemma run_url_tail_none: "run url_tail [] = None"
  by (simp add: url_tail_def)

lemma run_spaces_body:
  assumes "\<forall>c\<in>set ws. is_space c" and "body \<noteq> []" and "\<not> is_space (hd body)"
    and "CHR '')'' \<notin> set body"
  shows "run ((Space, Many0) # url_tail) (ws @ body) = Some ([ws, body, [], []], [])"
  using assms by (intro run_many0_all) (auto simp: run_url_tail_body)

lemma run_spaces_only:
  assumes "\<forall>c\<in>set t. is_space c" and "t \<noteq> []"
  shows "run ((Space, Many0) # url_tail) t = Some ([butlast t, [last t], [], []], [])"
  using assms
proof (induction t)
  case Nil
  then show ?case by simp
next
  case (Cons c t)
  show ?case
  proof (cases "t = []")
    case True
    have "run url_tail [c] = Some ([[c], [], []], [])"
      using Cons.prems by (intro run_url_tail_body) (auto dest: is_space_not_close)
    then show ?thesis using True Cons.prems by (simp add: run_url_tail_none)
  next
    case False
    then show ?thesis using Cons by simp
  qed
qed

lemma run_spaces_tok:
  assumes "tok \<noteq> []" and "CHR '')'' \<notin> set tok"
  shows "\<exists>w. run ((Space, Many0) # url_tail) tok = Some ([w, capture tok, [], []], [])"
proof (cases "dropWhile is_space tok = []")
  case True
  then have "\<forall>c\<in>set tok. is_space c" by (simp add: dropWhile_eq_Nil_conv)
  then show ?thesis using assms(1) True by (auto simp: run_spaces_only capture_def)
next
  case False
  let ?ws = "takeWhile is_space tok" and ?body = "dropWhile is_space tok"
  have "\<forall>c\<in>set ?ws. is_space c" by (auto dest: set_takeWhileD)
  moreover have "\<not> is_space (hd ?body)" using False by (rule hd_dropWhile)
  moreover have "CHR '')'' \<notin> set ?body" using assms(2) by (auto dest: set_dropWhileD)
  ultimately have "run ((Space, Many0) # url_tail) (?ws @ ?body) = Some ([?ws, ?body, [], []], [])"
    using False by (intro run_spaces_body) auto
  then show ?thesis using False by (auto simp: capture_def)
qed

lemma run_url_regex:
  assumes "tok \<noteq> []" and "CHR '')'' \<notin> set tok"
  shows "\<exists>gs. run url_regex (''url('' @ tok) = Some (gs, []) \<and> group1 gs = capture tok"
proof -
  from run_spaces_tok [OF assms] obtain w
    where "run ((Space, Many0) # url_tail) tok = Some ([w, capture tok, [], []], [])" by blast
  then show ?thesis by (simp add: url_regex_def url_tail_def group1_def)
qed

lemma run_url_regex_no_u: "c \<noteq> CHR ''u'' \<Longrightarrow> run url_regex (c # s) = None"
  by (simp add: url_regex_def)

lemma run_url_regex_Nil: "run url_regex [] = None"
  by (simp add: url_regex_def)

lemma scan_no_u: "CHR ''u'' \<notin> set pre \<Longrightarrow> scan url_regex (pre @ s) = map Text pre @ scan url_regex s"
proof (induction pre)
  case Nil
  then show ?case by simp
next
  case (Cons a pre)
  then have "a \<noteq> CHR ''u''" by auto
  then have "run url_regex (a # pre @ s) = None" by (rule run_url_regex_no_u)
  then show ?case using Cons by simp
qed

lemma scan_one:
  "s \<noteq> [] \<Longrightarrow> run url_regex s = Some (gs, []) \<Longrightarrow> scan url_regex s = [Match gs]"
  by (cases s) (simp_all add: run_url_regex_Nil)

lemma replace_with_Text:
  "replace_with f (map Text pre @ chunks) st =
     (case replace_with f chunks st of
        (Inl e, st') \<Rightarrow> (Inl e, st')
      | (Inr r, st') \<Rightarrow> (Inr (pre @ r), st'))"
  by (induction pre) (auto split: prod.splits sum.splits)

lemma replace_with_one:
  "replace_with f [Match gs] st =
     (case f gs st of (Inl e, st') \<Rightarrow> (Inl e, st') | (Inr x, st') \<Rightarrow> (Inr x, st'))"
  by (auto split: prod.splits sum.splits)

lemma replace_all_char:
  "replace_all [(Lit x, Once)] rep s = concat (map (\<lambda>c. if c = x then rep else [c]) s)"
  by (induction s) (simp_all add: replace_all_def)

lemma run_spaces: "run [(Space, Many0)] s = Some ([takeWhile is_space s], dropWhile is_space s)"
  by (induction s) simp_all

lemma replace_all_spaces: "replace_all [(Space, Many1)] '' '' s = collapse_spaces s"
proof (induction s rule: collapse_spaces.induct)
  case 1
  then show ?case by (simp add: replace_all_def)
next
  case (2 c s)
  show ?case
  proof (cases "is_space c")
    case True
    have "length (dropWhile is_space s) < Suc (length s)"
      by (simp add: length_dropWhile_le less_Suc_eq_le)
    then show ?thesis using True 2 by (simp add: replace_all_def run_spaces)
  next
    case False
    then show ?thesis using 2 by (simp add: replace_all_def)
  qed
qed

lemma concat_map_concat_map:
  "concat (map f (concat (map g s))) = concat (map (\<lambda>c. concat (map f (g c))) s)"
  by (induction s) simp_all

lemma svg_text_spec: "svg_text text = collapse_spaces (concat (map svg_escape text))"
proof -
  have "(\<lambda>c. concat (map (\<lambda>c. if c = CHR ''#'' then ''%23'' else [c])
          (concat (map (\<lambda>c. if c = CHR ''&'' then ''%26'' else [c])
            (concat (map (\<lambda>c. if c = CHR ''>'' then ''%3E'' else [c])
              (concat (map (\<lambda>c. if c = CHR ''<'' then ''%3C'' else [c])
                (concat (map (\<lambda>c. if c = CHR ''%'' then ''%25'' else [c])
                  (if c = CHR 0x22 then [CHR 0x27] else [c]))))))))))) = svg_escape"
    by (rule ext) (simp add: svg_escape_def)
  then show ?thesis
    by (simp add: svg_text_def replace_all_char replace_all_spaces concat_map_concat_map)
qed

section \<open>Claims on the path algebra\<close>

subsection \<open>Claim C3\<close>

text \<open>
  Claim C3 (as amended).  \<open>relativePath\<close> returns \<open>toPath\<close> unchanged when it starts with
  \<open>/\<close>, \<open>http://\<close> or \<open>https://\<close>.  Otherwise it strips the common folder prefix from both
  paths and prefixes the stripped \<open>toPath\<close> with one \<open>../\<close> for every \<open>/\<close> of the stripped
  \<open>fromPath\<close>: one fewer than the number of its \<open>/\<close>-separated segments, the last of which
  (the file name) is not counted.  The common folder prefix is the longest common prefix of
  the two paths that is empty or ends with \<open>/\<close>.
\<close>

theorem relativePath_spec:
  "relativePath fromPath toPath =
     (if startsWith toPath ''/'' \<or> startsWith toPath ''http://'' \<or> startsWith toPath ''https://''
      then toPath
      else concat (replicate
                    (length (js_split CHR ''/''
                       (drop (length (commonFolderPrefix fromPath toPath)) fromPath)) - 1)
                    ''../'')
           @ drop (length (commonFolderPrefix fromPath toPath)) toPath)
   \<and> length (js_split CHR ''/'' s) - 1 = count_list s CHR ''/''
   \<and> prefix (commonFolderPrefix fromPath toPath) fromPath
   \<and> prefix (commonFolderPrefix fromPath toPath) toPath
   \<and> (commonFolderPrefix fromPath toPath = []
        \<or> last (commonFolderPrefix fromPath toPath) = CHR ''/'')
   \<and> (prefix q fromPath \<and> prefix q toPath \<and> (q = [] \<or> last q = CHR ''/'')
        \<longrightarrow> prefix q (commonFolderPrefix fromPath toPath))"
  using cfp_max [of q fromPath toPath]
  by (simp add: relativePath_unfold length_js_split cfp_prefix1 cfp_prefix2 cfp_ends)

theorem relativePath_spec_witness:
  "relativePath ''a/b/style.css'' ''a/img/x.png'' = ''../img/x.png''
   \<and> commonFolderPrefix ''a/b/style.css'' ''a/img/x.png'' = ''a/''
   \<and> length (js_split CHR ''/'' ''b/style.css'') = 2
   \<and> relativePath ''a/b/style.css'' ''/img/x.png'' = ''/img/x.png''"
proof -
  have c: "commonFolderPrefix ''a/b/style.css'' ''a/img/x.png'' = ''a/''" by code_simp
  have p: "prefix ''a/'' ''a/b/style.css'' \<and> prefix ''a/'' ''a/img/x.png''
           \<and> (''a/'' = [] \<or> last ''a/'' = CHR ''/'')" by simp
  have "prefix ''a/'' (commonFolderPrefix ''a/b/style.css'' ''a/img/x.png'')"
    using relativePath_spec [of "''a/b/style.css''" "''a/img/x.png''" "[]" "''a/''"] p
    by blast
  have r: "relativePath ''a/b/style.css'' ''a/img/x.png'' = ''../img/x.png''"
    using relativePath_spec [of "''a/b/style.css''" "''a/img/x.png''" "''b/style.css''" "''a/''"]
    by (simp add: c startsWith_def substr_def)
  have r2: "relativePath ''a/b/style.css'' ''/img/x.png'' = ''/img/x.png''" by code_simp
  show ?thesis using c r r2 by simp
qed

text \<open>
  Claim C3 as stated fails: from \<open>out/bundle\<close> to \<open>a/img/x.png\<close> nothing is stripped, the
  stripped \<open>fromPath\<close> has the two \<open>/\<close>-separated segments \<open>out\<close> and \<open>bundle\<close>, and the
  result carries one \<open>../\<close>, not two.
\<close>

theorem relativePath_segment_count_counterexample:
  "commonFolderPrefix ''out/bundle'' ''a/img/x.png'' = []
   \<and> js_split CHR ''/'' ''out/bundle'' = [''out'', ''bundle'']
   \<and> relativePath ''out/bundle'' ''a/img/x.png'' = ''../a/img/x.png''
   \<and> relativePath ''out/bundle'' ''a/img/x.png''
       \<noteq> concat (replicate (length (js_split CHR ''/'' ''out/bundle'')) ''../'') @ ''a/img/x.png''"
  by code_simp

subsection \<open>Claim C4\<close>

text \<open>
  Claim C4 (as amended).  \<open>joinPaths\<close> keeps the protocol and host of \<open>a\<close> and pushes the
  slash-terminated segments of the rest of \<open>a\<close> and then of \<open>b\<close>, from left to right, starting
  afresh when \<open>b\<close> begins with \<open>/\<close>.  A \<open>./\<close> segment is dropped.  A \<open>../\<close> segment is pushed
  when nothing was pushed before it or the previous segment is \<open>../\<close>, is dropped when the
  previous segment is the root slash \<open>/\<close>, and pops the previous segment otherwise.  Every
  other segment is pushed.  In particular \<open>joinPaths('a/b/', '../c') = 'a/c'\<close>.
\<close>

theorem joinPaths_segments:
  "joinPaths a b =
     take (aPathStartIndex a) a
     @ concat (foldl pushPiece
         (if startsWith b ''/'' then []
          else foldl pushPiece [] (segments (drop (aPathStartIndex a) a)))
         (segments b))
   \<and> concat (segments s) = s
   \<and> pushPiece ps ''./'' = ps
   \<and> pushPiece [] ''../'' = [''../'']
   \<and> pushPiece (ps @ [''/'']) ''../'' = ps @ [''/'']
   \<and> pushPiece (ps @ [''../'']) ''../'' = ps @ [''../'', ''../'']
   \<and> (q \<noteq> [] \<and> q \<noteq> ''/'' \<and> q \<noteq> ''../'' \<longrightarrow> pushPiece (ps @ [q]) ''../'' = ps)
   \<and> (p \<noteq> ''./'' \<and> p \<noteq> ''../'' \<longrightarrow> pushPiece ps p = ps @ [p])
   \<and> joinPaths ''a/b/'' ''../c'' = ''a/c''"
proof -
  have ex: "joinPaths ''a/b/'' ''../c'' = ''a/c''" by code_simp
  have "pushPiece ps ''./'' = ps" by (simp add: pushPiece_def)
  moreover have "pushPiece [] ''../'' = [''../'']" by (simp add: pushPiece_def truthy_def)
  moreover have "pushPiece (ps @ [''/'']) ''../'' = ps @ [''/'']"
    by (simp add: pushPiece_def truthy_def)
  moreover have "pushPiece (ps @ [''../'']) ''../'' = ps @ [''../'', ''../'']"
    by (simp add: pushPiece_def truthy_def)
  moreover have "q \<noteq> [] \<and> q \<noteq> ''/'' \<and> q \<noteq> ''../'' \<longrightarrow> pushPiece (ps @ [q]) ''../'' = ps"
    by (simp add: pushPiece_def truthy_def)
  moreover have "p \<noteq> ''./'' \<and> p \<noteq> ''../'' \<longrightarrow> pushPiece ps p = ps @ [p]"
    by (simp add: pushPiece_def)
  ultimately show ?thesis using ex joinPaths_fold [of a b] concat_segments [of s] by simp
qed

theorem joinPaths_segments_witness:
  "pushPiece ([''a/''] @ [''b/'']) ''../'' = [''a/'']
   \<and> pushPiece [''a/''] ''c'' = [''a/''] @ [''c'']
   \<and> concat (segments ''../c'') = ''../c''
   \<and> joinPaths ''a/b/'' ''../c'' = ''a/c''"
proof -
  note T = joinPaths_segments [of "''a/b/''" "''../c''" "''../c''" "[''a/'']" "''b/''" "''c''"]
  have h1: "''b/'' \<noteq> [] \<and> ''b/'' \<noteq> ''/'' \<and> ''b/'' \<noteq> ''../''" by simp
  have h2: "''c'' \<noteq> ''./'' \<and> ''c'' \<noteq> ''../''" by simp
  have "pushPiece ([''a/''] @ [''b/'']) ''../'' = [''a/'']" using T h1 by blast
  moreover have "pushPiece [''a/''] ''c'' = [''a/''] @ [''c'']" using T h2 by blast
  moreover have "concat (segments ''../c'') = ''../c''" using T by blast
  moreover have "joinPaths ''a/b/'' ''../c'' = ''a/c''" using T by blast
  ultimately show ?thesis by blast
qed

text \<open>
  Claim C4 as stated fails: after a root slash a \<open>../\<close> segment is dropped, not pushed.
\<close>

theorem joinPaths_root_parent_counterexample:
  "pushPiece [''/''] ''../'' = [''/'']
   \<and> pushPiece [''/''] ''../'' \<noteq> [''/'', ''../'']
   \<and> joinPaths ''/'' ''../a'' = ''/a''
   \<and> joinPaths ''/'' ''../a'' \<noteq> ''/../a''"
  by code_simp

subsection \<open>Claim C5\<close>

text \<open>
  Claim C5 (as amended).  Let \<open>absUrl = joinPaths(pathOf(fromPath), rel)\<close> and
  \<open>r = relativePath(fromPath, absUrl)\<close>.  If \<open>fromPath\<close> does not start with \<open>//\<close>, \<open>http://\<close> or
  \<open>https://\<close>, its directory is already normalised (joining it to the empty base leaves it
  unchanged), \<open>absUrl\<close> does not start with \<open>http://\<close> or \<open>https://\<close>, and \<open>r\<close> starts with
  \<open>/\<close> only if \<open>absUrl\<close> does, then \<open>joinPaths(pathOf(fromPath), r) = absUrl\<close>.
\<close>

theorem roundtrip:
  assumes "\<not> startsWith fromPath ''//''"
    and "\<not> startsWith fromPath ''http://''"
    and "\<not> startsWith fromPath ''https://''"
    and "joinPaths [] (pathOf fromPath) = pathOf fromPath"
    and "absUrl = joinPaths (pathOf fromPath) rel"
    and "r = relativePath fromPath absUrl"
    and "\<not> startsWith absUrl ''http://''"
    and "\<not> startsWith absUrl ''https://''"
    and "startsWith r ''/'' \<longrightarrow> startsWith absUrl ''/''"
  shows "joinPaths (pathOf fromPath) r = absUrl"
proof -
  have "aPathStartIndex (pathOf fromPath) = 0" using assms(1-3) by (rule pathOf_plain)
  moreover have "normal (segments (pathOf fromPath))" using assms(4) by (rule normal_dir)
  ultimately show ?thesis using assms(5-9) by (rule roundtrip_core)
qed

theorem roundtrip_witness:
  "joinPaths (pathOf ''a/b/style.css'') ''../img/x.png'' = ''a/img/x.png''
   \<and> relativePath ''a/b/style.css'' ''a/img/x.png'' = ''../img/x.png''
   \<and> joinPaths (pathOf ''a/b/style.css'') ''../img/x.png'' = ''a/img/x.png''"
proof -
  have h1: "\<not> startsWith ''a/b/style.css'' ''//''" by code_simp
  have h2: "\<not> startsWith ''a/b/style.css'' ''http://''" by code_simp
  have h3: "\<not> startsWith ''a/b/style.css'' ''https://''" by code_simp
  have h4: "joinPaths [] (pathOf ''a/b/style.css'') = pathOf ''a/b/style.css''" by code_simp
  have h5: "''a/img/x.png'' = joinPaths (pathOf ''a/b/style.css'') ''../img/x.png''" by code_simp
  have h6: "''../img/x.png'' = relativePath ''a/b/style.css'' ''a/img/x.png''" by code_simp
  have h7: "\<not> startsWith ''a/img/x.png'' ''http://''" by code_simp
  have h8: "\<not> startsWith ''a/img/x.png'' ''https://''" by code_simp
  have h9: "startsWith ''../img/x.png'' ''/'' \<longrightarrow> startsWith ''a/img/x.png'' ''/''" by code_simp
  have "joinPaths (pathOf ''a/b/style.css'') ''../img/x.png'' = ''a/img/x.png''"
    by (rule roundtrip [OF h1 h2 h3 h4 h5 h6 h7 h8 h9])
  then show ?thesis using h5 [symmetric] h6 [symmetric] by simp
qed

text \<open>
  Claim C5 as stated fails in three ways: for a protocol-qualified \<open>fromPath\<close> (the absolute
  location is passed through by \<open>relativePath\<close> and then appended to the directory), for a
  directory with a \<open>./\<close> segment (which \<open>joinPaths\<close> drops but \<open>relativePath\<close> counts), and
  for a relative path that starts with \<open>/\<close> after the common folder prefix is stripped.
\<close>

theorem roundtrip_counterexample:
  "joinPaths (pathOf ''http://h/a/b.css'') ''x.png'' = ''http://h/a/x.png''
   \<and> relativePath ''http://h/a/b.css'' ''http://h/a/x.png'' = ''http://h/a/x.png''
   \<and> joinPaths (pathOf ''http://h/a/b.css'') ''http://h/a/x.png'' = ''http://h/a/http://h/a/x.png''
   \<and> joinPaths (pathOf ''./a.css'') ''x'' = ''x''
   \<and> relativePath ''./a.css'' ''x'' = ''../x''
   \<and> joinPaths (pathOf ''./a.css'') ''../x'' = ''../x''
   \<and> joinPaths (pathOf ''a/f.css'') ''.//x'' = ''a//x''
   \<and> relativePath ''a/f.css'' ''a//x'' = ''/x''
   \<and> joinPaths (pathOf ''a/f.css'') ''/x'' = ''/x''"
proof -
  have "joinPaths (pathOf ''http://h/a/b.css'') ''x.png'' = ''http://h/a/x.png''" by code_simp
  moreover have "relativePath ''http://h/a/b.css'' ''http://h/a/x.png'' = ''http://h/a/x.png''"
    by code_simp
  moreover have "joinPaths (pathOf ''http://h/a/b.css'') ''http://h/a/x.png''
                 = ''http://h/a/http://h/a/x.png''" by code_simp
  moreover have "joinPaths (pathOf ''./a.css'') ''x'' = ''x''" by code_simp
  moreover have "relativePath ''./a.css'' ''x'' = ''../x''" by code_simp
  moreover have "joinPaths (pathOf ''./a.css'') ''../x'' = ''../x''" by code_simp
  moreover have "joinPaths (pathOf ''a/f.css'') ''.//x'' = ''a//x''" by code_simp
  moreover have "relativePath ''a/f.css'' ''a//x'' = ''/x''" by code_simp
  moreover have "joinPaths (pathOf ''a/f.css'') ''/x'' = ''/x''" by code_simp
  ultimately show ?thesis by blast
qed

end
